theory Spec2Isabelle
  imports Main "HOL-Library.Word"
begin

section \<open>The byte buffer of \<^verbatim>\<open>code/buffer/buffer.cpp\<close>\<close>

text \<open>
  \<^verbatim>\<open>Buffer\<close> is a \<^verbatim>\<open>std::vector<char>\<close> with a read cursor and a write cursor.
  The embedding follows the source function by function:
  \<^item> \<^verbatim>\<open>size_t\<close> is a 64-bit word, so that \<open>+\<close> and \<open>-\<close> wrap around as they do in C++;
  \<^item> \<^verbatim>\<open>ssize_t\<close> results are \<open>int\<close>; the conversion to \<^verbatim>\<open>size_t\<close> is \<open>word_of_int\<close>;
  \<^item> a \<^verbatim>\<open>const char*\<close> argument is \<open>None\<close> for the null pointer and \<open>Some bs\<close> for a
    pointer at which the bytes \<open>bs\<close> can be read;
  \<^item> a failed \<^verbatim>\<open>assert\<close> (the process aborts), a memory access outside the object it
    addresses, and the exception of \<^verbatim>\<open>std::vector\<close> are the three values of \<open>error\<close>;
    a function that can end in one of them returns \<open>error + 'a\<close>;
  \<^item> the member functions mutate \<^verbatim>\<open>*this\<close>: the model takes the buffer and returns the
    new one.
  The member names \<^verbatim>\<open>buffer_\<close>, \<^verbatim>\<open>readPos_\<close>, \<^verbatim>\<open>writePos_\<close>, \<^verbatim>\<open>MakeSpace_\<close> lose their
  trailing underscore, which Isabelle does not accept in a name.
\<close>

subsection \<open>Data\<close>

type_synonym size_t = "64 word"

type_synonym byte = char

datatype error = AssertionFailed | OutOfBounds | LengthError

text \<open>
  Modelled from the spec: the class declaration (\<^verbatim>\<open>buffer.h\<close>) is not among the sources.
  The spec's data model names the three fields: the storage, a contiguous resizable
  sequence of bytes (\<^verbatim>\<open>buffer_\<close>, on which the source calls \<^verbatim>\<open>size\<close>, \<^verbatim>\<open>resize\<close> and
  \<^verbatim>\<open>begin\<close>), and the two cursors, indices into it, which the source returns and
  combines as \<^verbatim>\<open>size_t\<close>.
\<close>

record Buffer =
  buffer :: "byte list"
  readPos :: size_t
  writePos :: size_t

text \<open>
  The largest size a \<^verbatim>\<open>std::vector<char>\<close> accepts (\<^verbatim>\<open>max_size()\<close>, which is
  \<^verbatim>\<open>PTRDIFF_MAX\<close> on a 64-bit platform): constructing or resizing beyond it throws
  \<^verbatim>\<open>std::length_error\<close>. Below it, allocation is taken to succeed.
\<close>

definition max_size :: nat where
  "max_size = 2 ^ 63 - 1"

text \<open>\<^verbatim>\<open>buffer_.size()\<close>\<close>

definition size_buf :: "Buffer \<Rightarrow> size_t" where
  "size_buf b = of_nat (length (buffer b))"

text \<open>\<^verbatim>\<open>std::vector<char>::resize(n)\<close>: cut to \<open>n\<close> elements or fill up with zero bytes.\<close>

definition resize :: "nat \<Rightarrow> byte list \<Rightarrow> byte list" where
  "resize n xs = take n xs @ replicate (n - length xs) (CHR 0x00)"

text \<open>
  \<^verbatim>\<open>std::copy(first, last, d)\<close> inside one array, as the forward loop it is:
  \<open>n\<close> elements are copied one by one from index \<open>first\<close> upwards to index \<open>d\<close> upwards.
\<close>

fun std_copy :: "nat \<Rightarrow> nat \<Rightarrow> nat \<Rightarrow> 'a list \<Rightarrow> 'a list" where
  "std_copy first d 0 xs = xs"
| "std_copy first d (Suc n) xs = std_copy (Suc first) (Suc d) n (xs[d := xs ! first])"

text \<open>Storing the bytes \<open>seg\<close> from index \<open>i\<close> on, from a source outside the array.\<close>

definition write_at :: "nat \<Rightarrow> 'a list \<Rightarrow> 'a list \<Rightarrow> 'a list" where
  "write_at i seg xs = take i xs @ seg @ drop (i + length seg) xs"

subsection \<open>Construction and queries\<close>

text \<open>
  \<^verbatim>\<open>Buffer::Buffer(int initBuffSize)\<close>: the vector's constructor takes a \<^verbatim>\<open>size_t\<close>,
  so a negative \<^verbatim>\<open>int\<close> (32 bits, read by \<open>sint\<close>) becomes a size beyond \<open>max_size\<close>.
\<close>

definition Buffer_new :: "32 word \<Rightarrow> error + Buffer" where
  "Buffer_new initBuffSize =
     (if sint initBuffSize < 0 then Inl LengthError
      else Inr \<lparr>buffer = replicate (nat (sint initBuffSize)) (CHR 0x00),
                readPos = 0, writePos = 0\<rparr>)"

definition ReadableBytes :: "Buffer \<Rightarrow> size_t" where
  "ReadableBytes b = writePos b - readPos b"

definition WritableBytes :: "Buffer \<Rightarrow> size_t" where
  "WritableBytes b = size_buf b - writePos b"

definition PrependableBytes :: "Buffer \<Rightarrow> size_t" where
  "PrependableBytes b = readPos b"

text \<open>\<^verbatim>\<open>Peek()\<close> points at index \<open>readPos\<close>: the bytes that can be read there.\<close>

definition Peek :: "Buffer \<Rightarrow> byte list" where
  "Peek b = drop (unat (readPos b)) (buffer b)"

text \<open>\<^verbatim>\<open>BeginWrite()\<close> points at index \<open>writePos\<close>.\<close>

definition BeginWrite :: "Buffer \<Rightarrow> nat" where
  "BeginWrite b = unat (writePos b)"

subsection \<open>Consuming\<close>

definition Retrieve :: "size_t \<Rightarrow> Buffer \<Rightarrow> error + Buffer" where
  "Retrieve len b =
     (if len \<le> ReadableBytes b then Inr (b\<lparr>readPos := readPos b + len\<rparr>)
      else Inl AssertionFailed)"

text \<open>
  \<^verbatim>\<open>RetrieveUntil(end)\<close>: the pointer \<open>end\<close> is given by its index in the storage, as
  \<^verbatim>\<open>Peek()\<close> is index \<open>readPos\<close>.
\<close>

definition RetrieveUntil :: "size_t \<Rightarrow> Buffer \<Rightarrow> error + Buffer" where
  "RetrieveUntil end_idx b =
     (if readPos b \<le> end_idx then Retrieve (end_idx - readPos b) b
      else Inl AssertionFailed)"

definition RetrieveAll :: "Buffer \<Rightarrow> Buffer" where
  "RetrieveAll b =
     b\<lparr>buffer := replicate (length (buffer b)) (CHR 0x00), readPos := 0, writePos := 0\<rparr>"

text \<open>
  \<^verbatim>\<open>std::string str(Peek(), ReadableBytes())\<close> reads that many bytes at \<^verbatim>\<open>Peek()\<close>;
  reading past the end of the storage is outside the object.
\<close>

definition RetrieveAllToStr :: "Buffer \<Rightarrow> error + (byte list \<times> Buffer)" where
  "RetrieveAllToStr b =
     (if unat (ReadableBytes b) \<le> length (Peek b)
      then Inr (take (unat (ReadableBytes b)) (Peek b), RetrieveAll b)
      else Inl OutOfBounds)"

subsection \<open>Producing\<close>

definition HasWritten :: "size_t \<Rightarrow> Buffer \<Rightarrow> Buffer" where
  "HasWritten len b = b\<lparr>writePos := writePos b + len\<rparr>"

text \<open>
  \<^verbatim>\<open>MakeSpace_(len)\<close>. The sums are \<^verbatim>\<open>size_t\<close> sums. The copy of the second branch runs
  from \<open>readPos\<close> to \<open>writePos\<close>, which must be a range of the storage.
\<close>

definition MakeSpace :: "size_t \<Rightarrow> Buffer \<Rightarrow> error + Buffer" where
  "MakeSpace len b =
     (if WritableBytes b + PrependableBytes b < len then
        (let n = unat (writePos b + len + 1) in
         if max_size < n then Inl LengthError
         else Inr (b\<lparr>buffer := resize n (buffer b)\<rparr>))
      else
        (let readable = ReadableBytes b in
         if readPos b \<le> writePos b \<and> unat (writePos b) \<le> length (buffer b) then
           (let b1 = b\<lparr>buffer := std_copy (unat (readPos b)) 0 (unat readable) (buffer b)\<rparr>;
                b2 = b1\<lparr>readPos := 0\<rparr>;
                b3 = b2\<lparr>writePos := readPos b2 + readable\<rparr>
            in if readable = ReadableBytes b3 then Inr b3 else Inl AssertionFailed)
         else Inl OutOfBounds))"

definition EnsureWriteable :: "size_t \<Rightarrow> Buffer \<Rightarrow> error + Buffer" where
  "EnsureWriteable len b =
     (case (if WritableBytes b < len then MakeSpace len b else Inr b) of
        Inl e \<Rightarrow> Inl e
      | Inr b1 \<Rightarrow> if len \<le> WritableBytes b1 then Inr b1 else Inl AssertionFailed)"

text \<open>
  \<^verbatim>\<open>Append(const char* str, size_t len)\<close>. The copy reads \<open>len\<close> bytes at \<open>str\<close> and stores
  them from \<^verbatim>\<open>BeginWrite()\<close> on; both ranges must lie inside their objects.
\<close>

definition Append :: "byte list option \<Rightarrow> size_t \<Rightarrow> Buffer \<Rightarrow> error + Buffer" where
  "Append str len b =
     (case str of
        None \<Rightarrow> Inl AssertionFailed
      | Some bs \<Rightarrow>
          (case EnsureWriteable len b of
             Inl e \<Rightarrow> Inl e
           | Inr b1 \<Rightarrow>
               if unat len \<le> length bs \<and> BeginWrite b1 + unat len \<le> length (buffer b1) then
                 Inr (HasWritten len
                        (b1\<lparr>buffer := write_at (BeginWrite b1) (take (unat len) bs) (buffer b1)\<rparr>))
               else Inl OutOfBounds))"

text \<open>\<^verbatim>\<open>Append(const std::string& str)\<close>: \<^verbatim>\<open>str.data()\<close> is never null.\<close>

definition Append_str :: "byte list \<Rightarrow> Buffer \<Rightarrow> error + Buffer" where
  "Append_str str b = Append (Some str) (of_nat (length str)) b"

text \<open>\<^verbatim>\<open>Append(const void* data, size_t len)\<close>\<close>

definition Append_void :: "byte list option \<Rightarrow> size_t \<Rightarrow> Buffer \<Rightarrow> error + Buffer" where
  "Append_void data len b =
     (case data of None \<Rightarrow> Inl AssertionFailed | Some bs \<Rightarrow> Append (Some bs) len b)"

text \<open>\<^verbatim>\<open>Append(const Buffer& buff)\<close>\<close>

definition Append_buf :: "Buffer \<Rightarrow> Buffer \<Rightarrow> error + Buffer" where
  "Append_buf buff b = Append (Some (Peek buff)) (ReadableBytes buff) b"

subsection \<open>Descriptor transfers\<close>

text \<open>
  The descriptor is outside the program. For a read it either fails with an error
  number or has bytes ready for this call; for a write it either fails or accepts a
  number of bytes.
\<close>

datatype fd_source = ReadFails int | ReadReady "byte list"

datatype fd_sink = WriteFails int | WriteAccepts nat

definition SSIZE_MAX :: nat where
  "SSIZE_MAX = 2 ^ 63 - 1"

definition EINVAL :: int where
  "EINVAL = 22"

text \<open>
  \<^verbatim>\<open>readv(fd, iov, 2)\<close> with \<open>iov[0].iov_len = l0\<close> and \<open>iov[1].iov_len = l1\<close>: on failure
  \<open>Inl errno\<close> (the call returns \<open>-1\<close>); otherwise the ready bytes fill the first
  destination, then the second, and no more than both hold. The call returns the number
  of bytes stored. A total length that no \<^verbatim>\<open>ssize_t\<close> holds is refused with \<open>EINVAL\<close>.
\<close>

definition readv :: "fd_source \<Rightarrow> nat \<Rightarrow> nat \<Rightarrow> int + (byte list \<times> byte list)" where
  "readv fd l0 l1 =
     (case fd of
        ReadFails e \<Rightarrow> Inl e
      | ReadReady bs \<Rightarrow>
          if SSIZE_MAX < l0 + l1 then Inl EINVAL
          else Inr (take l0 bs, take l1 (drop l0 bs)))"

text \<open>\<^verbatim>\<open>write(fd, buf, count)\<close>: \<open>Inl errno\<close> on failure, else the number of bytes taken.\<close>

definition write_sys :: "fd_sink \<Rightarrow> nat \<Rightarrow> int + nat" where
  "write_sys fd count =
     (case fd of WriteFails e \<Rightarrow> Inl e | WriteAccepts k \<Rightarrow> Inr (min k count))"

text \<open>
  \<^verbatim>\<open>ReadFd(fd, saveErrno)\<close> returns the call's result, the value of \<^verbatim>\<open>*saveErrno\<close>
  afterwards and the buffer. The first destination of the read is the writable region,
  which must lie inside the storage; the second is the local array \<^verbatim>\<open>buff\<close> of 65535
  bytes, of which the bytes the read stored can be read afterwards.
\<close>

definition ReadFd :: "fd_source \<Rightarrow> int \<Rightarrow> Buffer \<Rightarrow> error + (int \<times> int \<times> Buffer)" where
  "ReadFd fd saveErrno b =
     (let writable = WritableBytes b in
      case readv fd (unat writable) 65535 of
        Inl errno \<Rightarrow> Inr (- 1, errno, b)
      | Inr (seg0, buff) \<Rightarrow>
          if length (buffer b) < unat (writePos b) then Inl OutOfBounds
          else
            (let len = int (length seg0 + length buff);
                 b0 = b\<lparr>buffer := write_at (unat (writePos b)) seg0 (buffer b)\<rparr>
             in if (word_of_int len :: size_t) \<le> writable then
                  Inr (len, saveErrno, b0\<lparr>writePos := writePos b0 + word_of_int len\<rparr>)
                else
                  (case Append (Some buff) (word_of_int len - writable)
                          (b0\<lparr>writePos := size_buf b0\<rparr>) of
                     Inl e \<Rightarrow> Inl e
                   | Inr b2 \<Rightarrow> Inr (len, saveErrno, b2))))"

text \<open>\<^verbatim>\<open>WriteFd(fd, saveErrno)\<close>: result, \<^verbatim>\<open>*saveErrno\<close> afterwards, buffer.\<close>

definition WriteFd :: "fd_sink \<Rightarrow> int \<Rightarrow> Buffer \<Rightarrow> int \<times> int \<times> Buffer" where
  "WriteFd fd saveErrno b =
     (let readSize = ReadableBytes b in
      case write_sys fd (unat readSize) of
        Inl errno \<Rightarrow> (- 1, errno, b)
      | Inr n \<Rightarrow> (int n, saveErrno, b\<lparr>readPos := readPos b + word_of_int (int n)\<rparr>))"

subsection \<open>The invariant and the readable content\<close>

text \<open>
  The spec's invariant \<open>0 \<le> readCursor \<le> writeCursor \<le> storage.length\<close>, with the bound
  every vector satisfies.
\<close>

definition well_formed :: "Buffer \<Rightarrow> bool" where
  "well_formed b \<longleftrightarrow> readPos b \<le> writePos b \<and> unat (writePos b) \<le> length (buffer b)
            \<and> length (buffer b) \<le> max_size"

text \<open>The readable region \<open>storage[readCursor, writeCursor)\<close>.\<close>

definition readable :: "Buffer \<Rightarrow> byte list" where
  "readable b = take (unat (writePos b) - unat (readPos b)) (drop (unat (readPos b)) (buffer b))"

subsection \<open>Sequences of calls\<close>

text \<open>
  A sequence of \<^verbatim>\<open>Append(const std::string&)\<close> and \<^verbatim>\<open>Retrieve\<close> calls, run from left to
  right; it stops at the first call that does not return. \<open>appended\<close> and \<open>consumed\<close>
  add up the lengths passed to the calls.
\<close>

datatype op = OpAppend "byte list" | OpRetrieve size_t

fun run :: "op list \<Rightarrow> Buffer \<Rightarrow> error + Buffer" where
  "run [] b = Inr b"
| "run (OpAppend str # ops) b =
     (case Append_str str b of Inl e \<Rightarrow> Inl e | Inr b' \<Rightarrow> run ops b')"
| "run (OpRetrieve len # ops) b =
     (case Retrieve len b of Inl e \<Rightarrow> Inl e | Inr b' \<Rightarrow> run ops b')"

fun appended :: "op list \<Rightarrow> nat" where
  "appended [] = 0"
| "appended (OpAppend str # ops) = length str + appended ops"
| "appended (OpRetrieve len # ops) = appended ops"

fun consumed :: "op list \<Rightarrow> nat" where
  "consumed [] = 0"
| "consumed (OpAppend str # ops) = consumed ops"
| "consumed (OpRetrieve len # ops) = unat len + consumed ops"

text \<open>A \<^verbatim>\<open>std::string\<close> is never longer than its own \<^verbatim>\<open>max_size()\<close>.\<close>

fun op_ok :: "op \<Rightarrow> bool" where
  "op_ok (OpAppend str) = (length str \<le> max_size)"
| "op_ok (OpRetrieve len) = True"

text \<open>
  A sequence keeps to the precondition of \<^verbatim>\<open>Retrieve\<close> when no call consumes more than is
  readable at that point; \<open>r\<close> is the readable size before the sequence.
\<close>

fun within_readable :: "op list \<Rightarrow> nat \<Rightarrow> bool" where
  "within_readable [] r = True"
| "within_readable (OpAppend str # ops) r = within_readable ops (r + length str)"
| "within_readable (OpRetrieve len # ops) r = (unat len \<le> r \<and> within_readable ops (r - unat len))"

text \<open>The public member functions that change the buffer, and the buffer each leaves.\<close>

datatype call =
    CRetrieve size_t
  | CRetrieveUntil size_t
  | CRetrieveAll
  | CRetrieveAllToStr
  | CHasWritten size_t
  | CAppend "byte list option" size_t
  | CAppend_str "byte list"
  | CAppend_void "byte list option" size_t
  | CAppend_buf Buffer
  | CEnsureWriteable size_t
  | CReadFd fd_source int
  | CWriteFd fd_sink int

fun exec :: "call \<Rightarrow> Buffer \<Rightarrow> error + Buffer" where
  "exec (CRetrieve len) b = Retrieve len b"
| "exec (CRetrieveUntil end_idx) b = RetrieveUntil end_idx b"
| "exec CRetrieveAll b = Inr (RetrieveAll b)"
| "exec CRetrieveAllToStr b =
     (case RetrieveAllToStr b of Inl e \<Rightarrow> Inl e | Inr (str, b') \<Rightarrow> Inr b')"
| "exec (CHasWritten len) b = Inr (HasWritten len b)"
| "exec (CAppend str len) b = Append str len b"
| "exec (CAppend_str str) b = Append_str str b"
| "exec (CAppend_void data len) b = Append_void data len b"
| "exec (CAppend_buf buff) b = Append_buf buff b"
| "exec (CEnsureWriteable len) b = EnsureWriteable len b"
| "exec (CReadFd fd saveErrno) b =
     (case ReadFd fd saveErrno b of Inl e \<Rightarrow> Inl e | Inr (len, errno, b') \<Rightarrow> Inr b')"
| "exec (CWriteFd fd saveErrno) b = Inr (snd (snd (WriteFd fd saveErrno b)))"

text \<open>
  The scenario of the spec: a buffer of capacity 10, \<^verbatim>\<open>Append("hello")\<close>,
  \<^verbatim>\<open>Retrieve(2)\<close>, \<^verbatim>\<open>Append("ab")\<close>.
\<close>

definition scenario :: "error + Buffer" where
  "scenario =
     (case Buffer_new 10 of
        Inl e \<Rightarrow> Inl e
      | Inr b0 \<Rightarrow> run [OpAppend ''hello'', OpRetrieve 2, OpAppend ''ab''] b0)"

text \<open>A new buffer of capacity 10, and the same after \<^verbatim>\<open>Append("hello")\<close>.\<close>

definition capacity10 :: Buffer where
  "capacity10 = \<lparr>buffer = replicate 10 (CHR 0x00), readPos = 0, writePos = 0\<rparr>"

definition hello_written :: Buffer where
  "hello_written =
     \<lparr>buffer = ''hello'' @ replicate 5 (CHR 0x00), readPos = 0, writePos = 5\<rparr>"

text \<open>The buffer of the scenario after its first two calls.\<close>

definition hello_consumed :: Buffer where
  "hello_consumed =
     \<lparr>buffer = ''hello'' @ replicate 5 (CHR 0x00), readPos = 2, writePos = 5\<rparr>"

text \<open>The buffer at the end of the scenario.\<close>

definition scenario_end :: Buffer where
  "scenario_end =
     \<lparr>buffer = ''helloab'' @ replicate 3 (CHR 0x00), readPos = 2, writePos = 7\<rparr>"

section \<open>Properties\<close>

subsection \<open>Cursors of a well-formed buffer as natural numbers\<close>

lemma unat_size_buf: "length (buffer b) \<le> max_size \<Longrightarrow> unat (size_buf b) = length (buffer b)"
  by (simp add: size_buf_def unat_of_nat max_size_def)

lemma wf_nat:
  assumes "well_formed b"
  shows "unat (readPos b) \<le> unat (writePos b)"
    and "unat (writePos b) \<le> length (buffer b)"
    and "length (buffer b) < 2 ^ 63"
  using assms by (simp_all add: well_formed_def word_le_nat_alt max_size_def)

lemma unat_ReadableBytes: "well_formed b \<Longrightarrow> unat (ReadableBytes b) = unat (writePos b) - unat (readPos b)"
  by (simp add: ReadableBytes_def well_formed_def unat_sub)

lemma unat_WritableBytes: "well_formed b \<Longrightarrow> unat (WritableBytes b) = length (buffer b) - unat (writePos b)"
  by (simp add: WritableBytes_def well_formed_def unat_sub word_le_nat_alt unat_size_buf)

lemma unat_add_small:
  fixes x y :: size_t
  assumes "unat x + unat y < 2 ^ 64"
  shows "unat (x + y) = unat x + unat y"
  using assms unat_add_lem [of x y] by simp

lemma unat_Writable_Prependable:
  assumes "well_formed b"
  shows "unat (WritableBytes b + PrependableBytes b) = length (buffer b) - unat (writePos b) + unat (readPos b)"
proof -
  have "unat (WritableBytes b) + unat (PrependableBytes b) < 2 ^ 64"
    using wf_nat [OF assms] unat_WritableBytes [OF assms] by (simp add: PrependableBytes_def)
  then show ?thesis
    using unat_WritableBytes [OF assms] by (simp add: unat_add_small PrependableBytes_def)
qed

subsection \<open>The forward copy inside one array\<close>

lemma length_std_copy: "length (std_copy f d n xs) = length xs"
  by (induction n arbitrary: f d xs) auto

lemma nth_std_copy:
  "d \<le> f \<Longrightarrow> f + n \<le> length xs \<Longrightarrow> i < length xs \<Longrightarrow>
   std_copy f d n xs ! i = (if d \<le> i \<and> i < d + n then xs ! (f + (i - d)) else xs ! i)"
proof (induction n arbitrary: f d xs)
  case 0
  then show ?case by auto
next
  case (Suc n)
  let ?ys = "xs[d := xs ! f]"
  have "std_copy (Suc f) (Suc d) n ?ys ! i =
        (if Suc d \<le> i \<and> i < Suc d + n then ?ys ! (Suc f + (i - Suc d)) else ?ys ! i)"
    using Suc.prems by (intro Suc.IH) auto
  moreover have "Suc d \<le> i \<Longrightarrow> Suc f + (i - Suc d) = f + (i - d)"
    by arith
  moreover have "Suc d \<le> i \<Longrightarrow> d \<noteq> f + (i - d)"
    using Suc.prems by arith
  ultimately show ?case
    using Suc.prems by (cases "i = d") (auto simp: nth_list_update)
qed

lemma std_copy_down:
  assumes "f + n \<le> length xs"
  shows "std_copy f 0 n xs = take n (drop f xs) @ drop n xs"
proof (rule nth_equalityI)
  show "length (std_copy f 0 n xs) = length (take n (drop f xs) @ drop n xs)"
    using assms by (simp add: length_std_copy)
next
  fix i assume "i < length (std_copy f 0 n xs)"
  then have i: "i < length xs" by (simp add: length_std_copy)
  show "std_copy f 0 n xs ! i = (take n (drop f xs) @ drop n xs) ! i"
    using assms i by (simp add: nth_std_copy nth_append)
qed

subsection \<open>Making space and appending\<close>

lemma length_write_at: "i + length seg \<le> length xs \<Longrightarrow> length (write_at i seg xs) = length xs"
  by (simp add: write_at_def)

lemma length_readable: "well_formed b \<Longrightarrow> length (readable b) = unat (writePos b) - unat (readPos b)"
  using wf_nat [of b] by (simp add: readable_def)

lemma resize_grow: "length xs \<le> n \<Longrightarrow> resize n xs = xs @ replicate (n - length xs) (CHR 0x00)"
  by (simp add: resize_def)

lemma unat_grow_size:
  fixes w l :: size_t
  assumes "unat w + unat l + 1 < 2 ^ 64"
  shows "unat (w + l + 1) = unat w + unat l + 1"
proof -
  have "unat (w + l) = unat w + unat l"
    using assms by (simp add: unat_add_small)
  then show ?thesis
    using assms unat_add_small [of "w + l" 1] by simp
qed

lemma MakeSpace_grow:
  assumes wf: "well_formed b" and need: "WritableBytes b + PrependableBytes b < len"
    and fits: "unat (writePos b) + unat len + 1 \<le> max_size"
  shows "MakeSpace len b =
           Inr (b\<lparr>buffer := buffer b @
                  replicate (unat (writePos b) + unat len + 1 - length (buffer b)) (CHR 0x00)\<rparr>)"
    and "length (buffer b) < unat (writePos b) + unat len + 1"
proof -
  have n: "unat (writePos b + len + 1) = unat (writePos b) + unat len + 1"
    using fits by (intro unat_grow_size) (simp add: max_size_def)
  have "length (buffer b) - unat (writePos b) + unat (readPos b) < unat len"
    using need unat_Writable_Prependable [OF wf] by (simp add: word_less_nat_alt)
  then show lt: "length (buffer b) < unat (writePos b) + unat len + 1"
    by arith
  show "MakeSpace len b =
           Inr (b\<lparr>buffer := buffer b @
                  replicate (unat (writePos b) + unat len + 1 - length (buffer b)) (CHR 0x00)\<rparr>)"
    using need fits lt by (simp add: MakeSpace_def n resize_grow)
qed

lemma MakeSpace_compact:
  assumes wf: "well_formed b" and enough: "\<not> WritableBytes b + PrependableBytes b < len"
  shows "MakeSpace len b =
           Inr \<lparr>buffer = readable b @ drop (unat (writePos b) - unat (readPos b)) (buffer b),
                readPos = 0, writePos = ReadableBytes b\<rparr>"
proof -
  have "unat (readPos b) + unat (ReadableBytes b) \<le> length (buffer b)"
    using wf_nat [OF wf] unat_ReadableBytes [OF wf] by simp
  then have "std_copy (unat (readPos b)) 0 (unat (ReadableBytes b)) (buffer b) =
        take (unat (ReadableBytes b)) (drop (unat (readPos b)) (buffer b)) @
        drop (unat (ReadableBytes b)) (buffer b)"
    by (rule std_copy_down)
  then show ?thesis
    using enough wf unat_ReadableBytes [OF wf]
    by (simp add: MakeSpace_def Let_def well_formed_def readable_def ReadableBytes_def)
qed

lemma unat_grow_size_mod:
  fixes w l :: size_t
  shows "unat (w + l + 1) = (unat w + unat l + 1) mod 2 ^ 64"
proof -
  have "unat (w + l + 1) = (unat (w + l) + 1) mod 2 ^ 64"
    by (simp add: unat_word_ariths)
  also have "unat (w + l) = (unat w + unat l) mod 2 ^ 64"
    by (simp add: unat_word_ariths)
  finally show ?thesis
    by (simp add: mod_Suc_eq)
qed

lemma grow_size_room:
  fixes w l :: size_t
  assumes "unat w + unat l \<le> unat (w + l + 1)"
  shows "unat w + unat l + 1 < 2 ^ 64" and "unat (w + l + 1) = unat w + unat l + 1"
proof -
  have w: "unat w < 2 ^ 64" and l: "unat l < 2 ^ 64"
    using unsigned_less [of w] unsigned_less [of l] by simp_all
  show lt: "unat w + unat l + 1 < 2 ^ 64"
  proof (rule ccontr)
    assume "\<not> unat w + unat l + 1 < 2 ^ 64"
    then have ge: "2 ^ 64 \<le> unat w + unat l + 1" by simp
    then have "(unat w + unat l + 1) mod 2 ^ 64 = unat w + unat l + 1 - 2 ^ 64"
      using w l by (simp add: mod_if)
    then show False
      using assms ge by (simp add: unat_grow_size_mod)
  qed
  then show "unat (w + l + 1) = unat w + unat l + 1"
    by (rule unat_grow_size)
qed

lemma readable_fields:
  "readable \<lparr>buffer = xs, readPos = r, writePos = w\<rparr> = take (unat w - unat r) (drop (unat r) xs)"
  by (simp add: readable_def)

lemma EnsureWriteable_ok:
  assumes wf: "well_formed b" and ok: "EnsureWriteable len b = Inr b1"
    and room: "unat (writePos b1) + unat len \<le> length (buffer b1)"
  shows "well_formed b1" and "readable b1 = readable b"
    and "length (buffer b) \<le> length (buffer b1)"
    and "unat (ReadableBytes b1) = unat (ReadableBytes b)"
    and "length (buffer b1) \<le> length (buffer b) + unat len + 1"
proof -
  note nat = wf_nat [OF wf]
  consider (stay) "\<not> WritableBytes b < len"
    | (grow) "WritableBytes b < len" "WritableBytes b + PrependableBytes b < len"
    | (compact) "WritableBytes b < len" "\<not> WritableBytes b + PrependableBytes b < len"
    by blast
  then have "well_formed b1 \<and> readable b1 = readable b \<and> length (buffer b) \<le> length (buffer b1)
      \<and> unat (ReadableBytes b1) = unat (ReadableBytes b)
      \<and> length (buffer b1) \<le> length (buffer b) + unat len + 1"
  proof cases
    case stay
    then have "b1 = b"
      using ok by (simp add: EnsureWriteable_def split: if_splits)
    then show ?thesis using wf by simp
  next
    case grow
    let ?n = "unat (writePos b + len + 1)"
    from grow ok have n: "\<not> max_size < ?n" and b1: "b1 = b\<lparr>buffer := resize ?n (buffer b)\<rparr>"
      by (auto simp: EnsureWriteable_def MakeSpace_def Let_def split: if_splits)
    have len_b1: "length (buffer b1) = ?n"
      by (simp add: b1 resize_def)
    have wp1: "writePos b1 = writePos b"
      by (simp add: b1)
    have "unat (writePos b) + unat len \<le> ?n"
      using room len_b1 wp1 by simp
    then have n_eq: "?n = unat (writePos b) + unat len + 1"
      by (rule grow_size_room)
    have "length (buffer b) - unat (writePos b) + unat (readPos b) < unat len"
      using grow(2) unat_Writable_Prependable [OF wf] by (simp add: word_less_nat_alt)
    then have lt: "length (buffer b) < ?n"
      using n_eq by arith
    then have buf: "buffer b1 = buffer b @ replicate (?n - length (buffer b)) (CHR 0x00)"
      by (simp add: b1 resize_grow)
    have "well_formed b1"
      using wf n lt len_b1 by (simp add: well_formed_def b1)
    moreover have "readable b1 = readable b"
      using nat by (simp add: readable_def buf) (simp add: b1)
    moreover have "unat (ReadableBytes b1) = unat (ReadableBytes b)"
      by (simp add: ReadableBytes_def b1)
    ultimately show ?thesis using lt len_b1 n_eq nat by simp
  next
    case compact
    from compact ok have b1: "b1 = \<lparr>buffer = readable b @ drop (unat (writePos b) - unat (readPos b)) (buffer b),
                readPos = 0, writePos = ReadableBytes b\<rparr>"
      by (simp add: EnsureWriteable_def MakeSpace_compact [OF wf] split: if_splits)
    have lr: "length (readable b) = unat (writePos b) - unat (readPos b)"
      by (rule length_readable [OF wf])
    have len_b1: "length (buffer b1) = length (buffer b)"
      using nat by (simp add: b1 lr)
    have "well_formed b1"
      using wf nat by (simp add: well_formed_def b1 lr unat_ReadableBytes [OF wf])
    moreover have "readable b1 = readable b"
      using nat by (simp add: b1 readable_fields unat_ReadableBytes [OF wf] lr)
    moreover have "unat (ReadableBytes b1) = unat (ReadableBytes b)"
      by (simp add: ReadableBytes_def b1)
    ultimately show ?thesis using len_b1 by simp
  qed
  then show "well_formed b1" and "readable b1 = readable b"
    and "length (buffer b) \<le> length (buffer b1)"
    and "unat (ReadableBytes b1) = unat (ReadableBytes b)"
    and "length (buffer b1) \<le> length (buffer b) + unat len + 1"
    by simp_all
qed

lemma EnsureWriteable_succeeds:
  assumes wf: "well_formed b"
    and fits: "WritableBytes b + PrependableBytes b < len \<Longrightarrow>
               unat (writePos b) + unat len + 1 \<le> max_size"
  shows "\<exists>b1. EnsureWriteable len b = Inr b1 \<and> well_formed b1 \<and>
              unat (writePos b1) + unat len \<le> length (buffer b1)"
proof -
  note nat = wf_nat [OF wf]
  consider (stay) "\<not> WritableBytes b < len"
    | (grow) "WritableBytes b < len" "WritableBytes b + PrependableBytes b < len"
    | (compact) "WritableBytes b < len" "\<not> WritableBytes b + PrependableBytes b < len"
    by blast
  then show ?thesis
  proof cases
    case stay
    then have le: "len \<le> WritableBytes b"
      by simp
    then have "unat len \<le> length (buffer b) - unat (writePos b)"
      using unat_WritableBytes [OF wf] by (simp add: word_le_nat_alt)
    then show ?thesis
      using stay le wf nat by (simp add: EnsureWriteable_def)
  next
    case grow
    let ?n = "unat (writePos b) + unat len + 1"
    let ?b1 = "b\<lparr>buffer := buffer b @ replicate (?n - length (buffer b)) (CHR 0x00)\<rparr>"
    have ms: "MakeSpace len b = Inr ?b1" and lt: "length (buffer b) < ?n"
      using MakeSpace_grow [OF wf grow(2) fits [OF grow(2)]] by simp_all
    have len1: "length (buffer ?b1) = ?n"
      using lt by simp
    have wf1: "well_formed ?b1"
      using wf fits [OF grow(2)] lt by (simp add: well_formed_def)
    have "unat (WritableBytes ?b1) = unat len + 1"
      using unat_WritableBytes [OF wf1] lt by simp
    then have "len \<le> WritableBytes ?b1"
      by (simp add: word_le_nat_alt)
    then have "EnsureWriteable len b = Inr ?b1"
      using grow(1) ms by (simp add: EnsureWriteable_def)
    then show ?thesis
      using wf1 lt by auto
  next
    case compact
    let ?b1 = "\<lparr>buffer = readable b @ drop (unat (writePos b) - unat (readPos b)) (buffer b),
                readPos = 0, writePos = ReadableBytes b\<rparr>"
    have ms: "MakeSpace len b = Inr ?b1"
      by (rule MakeSpace_compact [OF wf compact(2)])
    have lr: "length (readable b) = unat (writePos b) - unat (readPos b)"
      by (rule length_readable [OF wf])
    have wf1: "well_formed ?b1"
      using wf nat by (simp add: well_formed_def lr unat_ReadableBytes [OF wf])
    have "unat len \<le> length (buffer b) - unat (writePos b) + unat (readPos b)"
      using compact(2) unat_Writable_Prependable [OF wf] by (simp add: word_less_nat_alt)
    then have room: "unat (ReadableBytes b) + unat len \<le> length (buffer b)"
      using nat unat_ReadableBytes [OF wf] by simp
    have "unat (WritableBytes ?b1) = length (buffer b) - unat (ReadableBytes b)"
      using unat_WritableBytes [OF wf1] nat by (simp add: lr)
    then have "len \<le> WritableBytes ?b1"
      using room by (simp add: word_le_nat_alt)
    then have "EnsureWriteable len b = Inr ?b1"
      using compact(1) ms by (simp add: EnsureWriteable_def)
    then show ?thesis
      using wf1 room nat by (auto simp: lr)
  qed
qed

lemma Append_ok:
  assumes wf: "well_formed b" and ok: "Append (Some bs) len b = Inr b'"
  shows "well_formed b'" and "readable b' = readable b @ take (unat len) bs"
    and "unat len \<le> length bs"
    and "length (buffer b) \<le> length (buffer b')"
    and "unat (ReadableBytes b') = unat (ReadableBytes b) + unat len"
    and "length (buffer b') \<le> length (buffer b) + unat len + 1"
proof -
  from ok obtain b1 where ew: "EnsureWriteable len b = Inr b1"
    and src: "unat len \<le> length bs"
    and room: "unat (writePos b1) + unat len \<le> length (buffer b1)"
    and b': "b' = HasWritten len
                    (b1\<lparr>buffer := write_at (unat (writePos b1)) (take (unat len) bs) (buffer b1)\<rparr>)"
    by (auto simp: Append_def BeginWrite_def split: sum.splits if_splits)
  note b1 = EnsureWriteable_ok [OF wf ew room]
  note nat1 = wf_nat [OF b1(1)]
  have l: "length (take (unat len) bs) = unat len"
    using src by simp
  have wp: "unat (writePos b1 + len) = unat (writePos b1) + unat len"
    using room nat1 by (intro unat_add_small) simp
  have buf: "buffer b' = take (unat (writePos b1)) (buffer b1) @ take (unat len) bs @
                drop (unat (writePos b1) + unat len) (buffer b1)"
    using l by (simp add: b' HasWritten_def write_at_def)
  have len': "length (buffer b') = length (buffer b1)"
    using room l nat1 by (simp add: buf)
  have rp': "readPos b' = readPos b1" and wp': "writePos b' = writePos b1 + len"
    by (simp_all add: b' HasWritten_def)
  show "well_formed b'"
    using b1(1) nat1 room wp by (simp add: well_formed_def rp' wp' len' word_le_nat_alt)
  show "readable b' = readable b @ take (unat len) bs"
    using nat1 l
    by (simp add: readable_def [of b'] rp' wp' wp buf b1(2) [symmetric] readable_def [of b1] drop_take)
  show "unat len \<le> length bs" by (rule src)
  show "length (buffer b) \<le> length (buffer b')"
    using b1(3) len' by simp
  show "length (buffer b') \<le> length (buffer b) + unat len + 1"
    using b1(5) len' by simp
  have "unat (ReadableBytes b') = unat (writePos b1) + unat len - unat (readPos b1)"
    using nat1 wp by (simp add: ReadableBytes_def rp' wp' unat_sub word_le_nat_alt)
  then show "unat (ReadableBytes b') = unat (ReadableBytes b) + unat len"
    using nat1 b1(4) unat_ReadableBytes [OF b1(1)] by simp
qed

lemma Append_succeeds:
  assumes wf: "well_formed b" and src: "unat len \<le> length bs"
    and fits: "length (buffer b) + unat len + 1 \<le> max_size"
  shows "\<exists>b'. Append (Some bs) len b = Inr b'"
proof -
  have "unat (writePos b) + unat len + 1 \<le> max_size"
    using fits wf_nat [OF wf] by simp
  then obtain b1 where "EnsureWriteable len b = Inr b1"
    and "unat (writePos b1) + unat len \<le> length (buffer b1)"
    using EnsureWriteable_succeeds [OF wf, of len] by blast
  then show ?thesis
    using src by (simp add: Append_def BeginWrite_def)
qed


subsection \<open>Single calls on a well-formed buffer\<close>

lemma regions_sum:
  assumes "well_formed b"
  shows "unat (ReadableBytes b) + unat (PrependableBytes b) + unat (WritableBytes b) = length (buffer b)"
  using wf_nat [OF assms] unat_ReadableBytes [OF assms] unat_WritableBytes [OF assms]
  by (simp add: PrependableBytes_def)

lemma Buffer_new_ok:
  assumes "Buffer_new n = Inr b"
  shows "well_formed b" and "ReadableBytes b = 0" and "readable b = []"
    and "length (buffer b) = nat (sint n)"
proof -
  have b: "b = \<lparr>buffer = replicate (nat (sint n)) (CHR 0x00), readPos = 0, writePos = 0\<rparr>"
    using assms by (simp add: Buffer_new_def split: if_splits)
  have "sint n < 2 ^ 31"
    using sint_lt [of n] by simp
  then show "well_formed b"
    by (simp add: b well_formed_def max_size_def)
  show "ReadableBytes b = 0" "readable b = []" "length (buffer b) = nat (sint n)"
    by (simp_all add: b ReadableBytes_def readable_def)
qed

lemma unat_of_nat_length:
  "n \<le> max_size \<Longrightarrow> unat (of_nat n :: size_t) = n"
  by (simp add: unat_of_nat max_size_def)

lemma Append_str_ok:
  assumes wf: "well_formed b" and str: "length str \<le> max_size"
    and ok: "Append_str str b = Inr b'"
  shows "well_formed b'" and "readable b' = readable b @ str"
    and "length (buffer b) \<le> length (buffer b')"
    and "unat (ReadableBytes b') = unat (ReadableBytes b) + length str"
    and "length (buffer b') \<le> length (buffer b) + length str + 1"
  using Append_ok [OF wf ok [unfolded Append_str_def]] unat_of_nat_length [OF str]
  by simp_all

lemma Retrieve_ok:
  assumes wf: "well_formed b" and ok: "Retrieve len b = Inr b'"
  shows "well_formed b'" and "unat len \<le> unat (ReadableBytes b)"
    and "unat (ReadableBytes b') = unat (ReadableBytes b) - unat len"
    and "buffer b' = buffer b"
    and "readable b' = drop (unat len) (readable b)"
proof -
  from ok have le: "len \<le> ReadableBytes b" and b': "b' = b\<lparr>readPos := readPos b + len\<rparr>"
    by (auto simp: Retrieve_def split: if_splits)
  note nat = wf_nat [OF wf]
  show l: "unat len \<le> unat (ReadableBytes b)"
    using le by (simp add: word_le_nat_alt)
  then have l': "unat len \<le> unat (writePos b) - unat (readPos b)"
    using unat_ReadableBytes [OF wf] by simp
  have rp: "unat (readPos b + len) = unat (readPos b) + unat len"
    using l' nat by (intro unat_add_small) simp
  show wf': "well_formed b'"
    using wf l' nat rp by (simp add: b' well_formed_def word_le_nat_alt)
  show "unat (ReadableBytes b') = unat (ReadableBytes b) - unat len"
    using unat_ReadableBytes [OF wf'] unat_ReadableBytes [OF wf] rp by (simp add: b')
  show "buffer b' = buffer b" by (simp add: b')
  show "readable b' = drop (unat len) (readable b)"
    using rp by (simp add: readable_def b' drop_take add.commute)
qed

section \<open>The claims of the specification\<close>

lemmas eval_defs =
  Buffer_new_def Retrieve_def ReadableBytes_def WritableBytes_def PrependableBytes_def
  size_buf_def BeginWrite_def HasWritten_def write_at_def EnsureWriteable_def Append_def
  Append_str_def

subsection \<open>C1: the three regions and the net readable length\<close>

lemma run_ok:
  assumes "well_formed b0" and "list_all op_ok ops" and "run ops b0 = Inr b"
  shows "well_formed b \<and> unat (ReadableBytes b) + consumed ops = unat (ReadableBytes b0) + appended ops"
  using assms
proof (induction ops arbitrary: b0)
  case Nil
  then show ?case by simp
next
  case (Cons x ops)
  show ?case
  proof (cases x)
    case (OpAppend str)
    with Cons.prems obtain b1 where b1: "Append_str str b0 = Inr b1" and rest: "run ops b1 = Inr b"
      by (auto split: sum.splits)
    from Cons.prems OpAppend have str: "length str \<le> max_size" by simp
    note step = Append_str_ok [OF Cons.prems(1) str b1]
    have "well_formed b \<and> unat (ReadableBytes b) + consumed ops = unat (ReadableBytes b1) + appended ops"
      using Cons.prems(2) by (intro Cons.IH [OF step(1) _ rest]) simp
    then show ?thesis
      using step(4) OpAppend by simp
  next
    case (OpRetrieve len)
    with Cons.prems obtain b1 where b1: "Retrieve len b0 = Inr b1" and rest: "run ops b1 = Inr b"
      by (auto split: sum.splits)
    note step = Retrieve_ok [OF Cons.prems(1) b1]
    have "well_formed b \<and> unat (ReadableBytes b) + consumed ops = unat (ReadableBytes b1) + appended ops"
      using Cons.prems(2) by (intro Cons.IH [OF step(1) _ rest]) simp
    then have "well_formed b" and
      "unat (ReadableBytes b) + consumed ops = unat (ReadableBytes b1) + appended ops"
      by simp_all
    then show ?thesis
      using step(2,3) OpRetrieve by simp
  qed
qed

lemma run_prefix:
  "run ops b0 = Inr b \<Longrightarrow> \<exists>bk. run (take k ops) b0 = Inr bk"
proof (induction ops arbitrary: k b0)
  case Nil
  then show ?case by simp
next
  case (Cons x ops)
  show ?case
  proof (cases k)
    case 0
    then show ?thesis by simp
  next
    case (Suc j)
    then show ?thesis
      using Cons.prems Cons.IH [of _ j] by (cases x) (auto split: sum.splits)
  qed
qed

lemma run_succeeds:
  assumes "well_formed b0" and "within_readable ops (unat (ReadableBytes b0))"
    and "length (buffer b0) + appended ops + length ops \<le> max_size"
  shows "\<exists>b. run ops b0 = Inr b"
  using assms
proof (induction ops arbitrary: b0)
  case Nil
  then show ?case by simp
next
  case (Cons x ops)
  show ?case
  proof (cases x)
    case (OpAppend str)
    have str: "length str \<le> max_size"
      using Cons.prems(3) OpAppend by simp
    have l: "unat (of_nat (length str) :: size_t) = length str"
      by (rule unat_of_nat_length [OF str])
    have "length (buffer b0) + length str + 1 \<le> max_size"
      using Cons.prems(3) OpAppend by simp
    then obtain b1 where b1: "Append_str str b0 = Inr b1"
      using Append_succeeds [OF Cons.prems(1), of "of_nat (length str)" str] l
      by (auto simp: Append_str_def)
    note step = Append_str_ok [OF Cons.prems(1) str b1]
    have "within_readable ops (unat (ReadableBytes b1))"
      using Cons.prems(2) OpAppend step(4) by simp
    moreover have "length (buffer b1) + appended ops + length ops \<le> max_size"
      using Cons.prems(3) OpAppend step(5) by simp
    ultimately have "\<exists>b. run ops b1 = Inr b"
      by (rule Cons.IH [OF step(1)])
    then show ?thesis
      using b1 OpAppend by simp
  next
    case (OpRetrieve len)
    have "unat len \<le> unat (ReadableBytes b0)"
      using Cons.prems(2) OpRetrieve by simp
    then have "len \<le> ReadableBytes b0"
      by (simp add: word_le_nat_alt)
    then obtain b1 where b1: "Retrieve len b0 = Inr b1"
      by (simp add: Retrieve_def)
    note step = Retrieve_ok [OF Cons.prems(1) b1]
    have "within_readable ops (unat (ReadableBytes b1))"
      using Cons.prems(2) OpRetrieve step(3) by simp
    moreover have "length (buffer b1) + appended ops + length ops \<le> max_size"
      using Cons.prems(3) OpRetrieve step(4) by simp
    ultimately have "\<exists>b. run ops b1 = Inr b"
      by (rule Cons.IH [OF step(1)])
    then show ?thesis
      using b1 OpRetrieve by simp
  qed
qed

lemma op_ok_bounded:
  "appended ops \<le> max_size \<Longrightarrow> list_all op_ok ops"
proof (induction ops)
  case Nil
  then show ?case by simp
next
  case (Cons x ops)
  then show ?case by (cases x) simp_all
qed

text \<open>
  C1: take a well-formed buffer with nothing to read and a sequence of \<^verbatim>\<open>Append\<close> and
  \<^verbatim>\<open>Retrieve\<close> calls. If no call consumes more than is readable and the storage can
  still be made large enough, every call returns. And if every call returns (no assertion
  fails, no exception), then after each call, that is after every prefix of the sequence,
  the sizes of the readable, the prependable and the writable region add up to the size
  of the storage, and the readable size is the sum of the appended lengths minus the sum
  of the consumed ones.
\<close>

theorem C1_regions_and_net_length:
  assumes "well_formed b0" and "ReadableBytes b0 = 0" and "list_all op_ok ops"
  shows "(within_readable ops 0 \<and> length (buffer b0) + appended ops + length ops \<le> max_size
            \<longrightarrow> (\<exists>b. run ops b0 = Inr b))
     \<and> ((\<exists>b. run ops b0 = Inr b) \<longrightarrow>
          (\<exists>bk. run (take k ops) b0 = Inr bk
             \<and> unat (ReadableBytes bk) + unat (PrependableBytes bk) + unat (WritableBytes bk)
                 = length (buffer bk)
             \<and> consumed (take k ops) \<le> appended (take k ops)
             \<and> unat (ReadableBytes bk) = appended (take k ops) - consumed (take k ops)))"
proof (intro conjI impI)
  assume "within_readable ops 0 \<and> length (buffer b0) + appended ops + length ops \<le> max_size"
  then show "\<exists>b. run ops b0 = Inr b"
    using run_succeeds [OF assms(1), of ops] assms(2) by simp
next
  assume "\<exists>b. run ops b0 = Inr b"
  then obtain b where b: "run ops b0 = Inr b"
    by blast
  obtain bk where bk: "run (take k ops) b0 = Inr bk"
    using run_prefix [OF b] by blast
  have "list_all op_ok (take k ops)"
    using assms(3) by (auto simp: list_all_iff dest: in_set_takeD)
  then have "well_formed bk \<and>
      unat (ReadableBytes bk) + consumed (take k ops) = unat (ReadableBytes b0) + appended (take k ops)"
    using assms(1) bk by (intro run_ok)
  then have "well_formed bk" and
    "unat (ReadableBytes bk) + consumed (take k ops) = appended (take k ops)"
    using assms(2) by simp_all
  then show "\<exists>bk. run (take k ops) b0 = Inr bk
             \<and> unat (ReadableBytes bk) + unat (PrependableBytes bk) + unat (WritableBytes bk)
                 = length (buffer bk)
             \<and> consumed (take k ops) \<le> appended (take k ops)
             \<and> unat (ReadableBytes bk) = appended (take k ops) - consumed (take k ops)"
    using bk regions_sum [of bk] by (intro exI [of _ bk]) simp
qed

theorem C1_witness:
  "well_formed capacity10 \<and> ReadableBytes capacity10 = 0
   \<and> list_all op_ok [OpAppend ''hello'', OpRetrieve 2, OpAppend ''ab'']
   \<and> within_readable [OpAppend ''hello'', OpRetrieve 2, OpAppend ''ab''] 0
   \<and> length (buffer capacity10) + appended [OpAppend ''hello'', OpRetrieve 2, OpAppend ''ab'']
         + length [OpAppend ''hello'', OpRetrieve 2, OpAppend ''ab''] \<le> max_size
   \<and> run [OpAppend ''hello'', OpRetrieve 2, OpAppend ''ab''] capacity10 = Inr scenario_end
   \<and> (\<exists>bk. run (take 2 [OpAppend ''hello'', OpRetrieve 2, OpAppend ''ab'']) capacity10 = Inr bk
     \<and> unat (ReadableBytes bk) + unat (PrependableBytes bk) + unat (WritableBytes bk)
         = length (buffer bk)
     \<and> consumed (take 2 [OpAppend ''hello'', OpRetrieve 2, OpAppend ''ab''])
         \<le> appended (take 2 [OpAppend ''hello'', OpRetrieve 2, OpAppend ''ab''])
     \<and> unat (ReadableBytes bk) =
         appended (take 2 [OpAppend ''hello'', OpRetrieve 2, OpAppend ''ab''])
         - consumed (take 2 [OpAppend ''hello'', OpRetrieve 2, OpAppend ''ab'']))"
proof -
  let ?ops = "[OpAppend ''hello'', OpRetrieve 2, OpAppend ''ab'']"
  have h1: "well_formed capacity10"
    by (simp add: capacity10_def well_formed_def max_size_def)
  have h2: "ReadableBytes capacity10 = 0"
    by (simp add: capacity10_def ReadableBytes_def)
  have h3: "list_all op_ok ?ops"
    by (simp add: max_size_def)
  have h4: "within_readable ?ops 0"
    by simp
  have h5: "length (buffer capacity10) + appended ?ops + length ?ops \<le> max_size"
    by (simp add: capacity10_def max_size_def)
  have h6: "run ?ops capacity10 = Inr scenario_end"
    by (simp add: capacity10_def scenario_end_def eval_defs)
  show ?thesis
    using C1_regions_and_net_length [OF h1 h2 h3, of 2] h1 h2 h3 h4 h5 h6 by blast
qed

subsection \<open>C2: growth and compaction in \<^verbatim>\<open>MakeSpace_\<close>\<close>

text \<open>
  C2, as the spec states it: whenever \<open>writableBytes() + prependableBytes() < len\<close>, the
  storage is resized upward with its bytes kept. The new size \<open>writePos_ + len + 1\<close> is a
  \<^verbatim>\<open>size_t\<close> sum handed to the vector. On a new buffer of capacity 10 and \<open>len = 2^63\<close>
  the size is beyond \<open>max_size\<close> and the vector throws. With a write cursor of 5 and
  \<open>len = 2^64 - 4\<close> the sum wraps around to 2, and the storage of 10 bytes is cut to 2
  bytes.
\<close>

theorem C2_counterexample:
  "well_formed capacity10
   \<and> WritableBytes capacity10 + PrependableBytes capacity10 < 0x8000000000000000
   \<and> MakeSpace 0x8000000000000000 capacity10 = Inl LengthError
   \<and> well_formed hello_written
   \<and> WritableBytes hello_written + PrependableBytes hello_written < 0xFFFFFFFFFFFFFFFC
   \<and> MakeSpace 0xFFFFFFFFFFFFFFFC hello_written = Inr \<lparr>buffer = ''he'', readPos = 0, writePos = 5\<rparr>
   \<and> length (buffer hello_written) = 10"
  by (simp add: capacity10_def hello_written_def well_formed_def max_size_def MakeSpace_def
      resize_def WritableBytes_def PrependableBytes_def size_buf_def)

text \<open>
  C2, amended: on a well-formed buffer, if \<open>writableBytes() + prependableBytes() < len\<close>
  and \<open>writeCursor + len + 1\<close> is at most the largest size of a vector (so that the sum
  does not wrap around), the storage is resized upward to exactly
  \<open>writeCursor + len + 1\<close> bytes, all existing bytes stay at their offsets and both
  cursors are unchanged; if \<open>writableBytes() + prependableBytes() \<ge> len\<close>, the readable
  region is moved to offset 0 inside the same storage, the read cursor becomes 0, the
  write cursor becomes the readable length, and the readable content is the same.
\<close>

theorem C2_grow_or_compact:
  assumes "well_formed b"
  shows "(WritableBytes b + PrependableBytes b < len
            \<and> unat (writePos b) + unat len + 1 \<le> max_size \<longrightarrow>
          (\<exists>b'. MakeSpace len b = Inr b'
             \<and> length (buffer b') = unat (writePos b) + unat len + 1
             \<and> length (buffer b) < length (buffer b')
             \<and> take (length (buffer b)) (buffer b') = buffer b
             \<and> readPos b' = readPos b \<and> writePos b' = writePos b))
       \<and> (\<not> WritableBytes b + PrependableBytes b < len \<longrightarrow>
          (\<exists>b'. MakeSpace len b = Inr b'
             \<and> length (buffer b') = length (buffer b)
             \<and> readPos b' = 0 \<and> writePos b' = ReadableBytes b
             \<and> readable b' = readable b))"
proof (intro conjI impI)
  assume grow: "WritableBytes b + PrependableBytes b < len
            \<and> unat (writePos b) + unat len + 1 \<le> max_size"
  let ?n = "unat (writePos b) + unat len + 1"
  let ?b' = "b\<lparr>buffer := buffer b @ replicate (?n - length (buffer b)) (CHR 0x00)\<rparr>"
  have "MakeSpace len b = Inr ?b'" and "length (buffer b) < ?n"
    using MakeSpace_grow [OF assms, of len] grow by simp_all
  then show "\<exists>b'. MakeSpace len b = Inr b'
             \<and> length (buffer b') = unat (writePos b) + unat len + 1
             \<and> length (buffer b) < length (buffer b')
             \<and> take (length (buffer b)) (buffer b') = buffer b
             \<and> readPos b' = readPos b \<and> writePos b' = writePos b"
    by (intro exI [of _ ?b']) simp
next
  assume compact: "\<not> WritableBytes b + PrependableBytes b < len"
  let ?b' = "\<lparr>buffer = readable b @ drop (unat (writePos b) - unat (readPos b)) (buffer b),
                readPos = 0, writePos = ReadableBytes b\<rparr>"
  note nat = wf_nat [OF assms]
  have lr: "length (readable b) = unat (writePos b) - unat (readPos b)"
    by (rule length_readable [OF assms])
  have "MakeSpace len b = Inr ?b'"
    by (rule MakeSpace_compact [OF assms compact])
  moreover have "length (buffer ?b') = length (buffer b)"
    using nat by (simp add: lr)
  moreover have "readable ?b' = readable b"
    using nat by (simp add: readable_fields unat_ReadableBytes [OF assms] lr)
  ultimately show "\<exists>b'. MakeSpace len b = Inr b'
             \<and> length (buffer b') = length (buffer b)
             \<and> readPos b' = 0 \<and> writePos b' = ReadableBytes b
             \<and> readable b' = readable b"
    by (intro exI [of _ ?b']) simp
qed

theorem C2_witness:
  "well_formed hello_consumed
   \<and> WritableBytes hello_consumed + PrependableBytes hello_consumed < 8
   \<and> unat (writePos hello_consumed) + unat (8 :: size_t) + 1 \<le> max_size
   \<and> (\<exists>b'. MakeSpace 8 hello_consumed = Inr b'
             \<and> length (buffer b') = unat (writePos hello_consumed) + unat (8 :: size_t) + 1
             \<and> length (buffer hello_consumed) < length (buffer b')
             \<and> take (length (buffer hello_consumed)) (buffer b') = buffer hello_consumed
             \<and> readPos b' = readPos hello_consumed \<and> writePos b' = writePos hello_consumed)
   \<and> \<not> WritableBytes hello_consumed + PrependableBytes hello_consumed < 6
   \<and> (\<exists>b'. MakeSpace 6 hello_consumed = Inr b'
             \<and> length (buffer b') = length (buffer hello_consumed)
             \<and> readPos b' = 0 \<and> writePos b' = ReadableBytes hello_consumed
             \<and> readable b' = readable hello_consumed)"
proof -
  have h: "well_formed hello_consumed"
    by (simp add: hello_consumed_def well_formed_def max_size_def)
  have g: "WritableBytes hello_consumed + PrependableBytes hello_consumed < 8"
    "unat (writePos hello_consumed) + unat (8 :: size_t) + 1 \<le> max_size"
    by (simp_all add: hello_consumed_def WritableBytes_def PrependableBytes_def size_buf_def
        max_size_def)
  have c: "\<not> WritableBytes hello_consumed + PrependableBytes hello_consumed < 6"
    by (simp add: hello_consumed_def WritableBytes_def PrependableBytes_def size_buf_def)
  show ?thesis
    using C2_grow_or_compact [OF h, of 8] C2_grow_or_compact [OF h, of 6] h g c by blast
qed

subsection \<open>C3: appending more than the free space\<close>

lemma EnsureWriteable_grow:
  assumes wf: "well_formed b" and need: "WritableBytes b + PrependableBytes b < len"
    and ok: "EnsureWriteable len b = Inr b1"
    and room: "unat (writePos b1) + unat len \<le> length (buffer b1)"
  shows "b1 = b\<lparr>buffer := buffer b @
                  replicate (unat (writePos b) + unat len + 1 - length (buffer b)) (CHR 0x00)\<rparr>"
    and "length (buffer b1) = unat (writePos b) + unat len + 1"
    and "unat (writePos b) + unat len + 1 \<le> max_size"
proof -
  note nat = wf_nat [OF wf]
  let ?n = "unat (writePos b + len + 1)"
  have "length (buffer b) - unat (writePos b) + unat (readPos b) < unat len"
    using need unat_Writable_Prependable [OF wf] by (simp add: word_less_nat_alt)
  then have "unat (WritableBytes b) < unat len"
    using unat_WritableBytes [OF wf] by simp
  then have less: "WritableBytes b < len"
    by (simp add: word_less_nat_alt)
  from less need ok have n: "\<not> max_size < ?n" and b1: "b1 = b\<lparr>buffer := resize ?n (buffer b)\<rparr>"
    by (auto simp: EnsureWriteable_def MakeSpace_def Let_def split: if_splits)
  have "length (buffer b1) = ?n" and "writePos b1 = writePos b"
    by (simp_all add: b1 resize_def)
  then have "unat (writePos b) + unat len \<le> ?n"
    using room by simp
  then have n_eq: "?n = unat (writePos b) + unat len + 1"
    by (rule grow_size_room)
  then show fits: "unat (writePos b) + unat len + 1 \<le> max_size"
    using n by simp
  have "MakeSpace len b = Inr (b\<lparr>buffer := buffer b @
                  replicate (unat (writePos b) + unat len + 1 - length (buffer b)) (CHR 0x00)\<rparr>)"
    and lt: "length (buffer b) < unat (writePos b) + unat len + 1"
    using MakeSpace_grow [OF wf need fits] by simp_all
  then show "b1 = b\<lparr>buffer := buffer b @
                  replicate (unat (writePos b) + unat len + 1 - length (buffer b)) (CHR 0x00)\<rparr>"
    using less ok by (simp add: EnsureWriteable_def split: if_splits)
  then show "length (buffer b1) = unat (writePos b) + unat len + 1"
    using lt by simp
qed

text \<open>
  C3, as the spec states it: after an append of \<open>L > writableBytes() + prependableBytes()\<close>
  bytes, \<open>writableBytes() \<ge> L\<close>. An append of 11 bytes to a new buffer of capacity 10
  leaves one writable byte.
\<close>

theorem C3_counterexample:
  "well_formed capacity10
   \<and> WritableBytes capacity10 + PrependableBytes capacity10 < of_nat (length ''hello world'')
   \<and> Append_str ''hello world'' capacity10 =
       Inr \<lparr>buffer = ''hello world'' @ [CHR 0x00], readPos = 0, writePos = 11\<rparr>
   \<and> WritableBytes \<lparr>buffer = ''hello world'' @ [CHR 0x00], readPos = 0, writePos = 11\<rparr> = 1"
  by (simp add: capacity10_def well_formed_def max_size_def MakeSpace_def resize_def eval_defs)

text \<open>
  C3, amended: on a well-formed buffer, let an append of \<open>L > writableBytes() +
  prependableBytes()\<close> bytes complete. Then \<^verbatim>\<open>EnsureWriteable(L)\<close>, the growth step inside
  the append, left \<open>L + 1 \<ge> L\<close> writable bytes and the readable content as it was; after
  the append exactly one byte is writable, and the readable content is the previous one
  followed by the appended bytes.
\<close>

theorem C3_growth_then_one_byte_left:
  assumes "well_formed b" and "length str \<le> max_size"
    and "WritableBytes b + PrependableBytes b < of_nat (length str)"
    and "Append_str str b = Inr b'"
  shows "\<exists>b1. EnsureWriteable (of_nat (length str)) b = Inr b1
            \<and> of_nat (length str) \<le> WritableBytes b1
            \<and> unat (WritableBytes b1) = length str + 1
            \<and> readable b1 = readable b
            \<and> WritableBytes b' = 1
            \<and> readable b' = readable b @ str"
proof -
  let ?len = "of_nat (length str) :: size_t"
  have l: "unat ?len = length str"
    by (rule unat_of_nat_length [OF assms(2)])
  from assms(4) obtain b1 where ew: "EnsureWriteable ?len b = Inr b1"
    and room: "unat (writePos b1) + unat ?len \<le> length (buffer b1)"
    and b': "b' = HasWritten ?len
                    (b1\<lparr>buffer := write_at (unat (writePos b1)) (take (unat ?len) str) (buffer b1)\<rparr>)"
    by (auto simp: Append_str_def Append_def BeginWrite_def split: sum.splits if_splits)
  note b1 = EnsureWriteable_ok [OF assms(1) ew room]
  note g = EnsureWriteable_grow [OF assms(1) assms(3) ew room]
  note post = Append_str_ok [OF assms(1,2,4)]
  have wp1: "writePos b1 = writePos b"
    by (subst g(1)) simp
  have w1: "unat (WritableBytes b1) = length str + 1"
    using unat_WritableBytes [OF b1(1)] g(2) l by (simp add: wp1)
  then have le: "?len \<le> WritableBytes b1"
    using l by (simp add: word_le_nat_alt)
  have wp': "unat (writePos b') = unat (writePos b) + length str"
    using room l wf_nat [OF b1(1)] unat_add_small [of "writePos b1" ?len]
    by (simp add: b' HasWritten_def wp1)
  have "length (buffer b') = unat (writePos b) + length str + 1"
    using room g(2) l by (simp add: b' HasWritten_def length_write_at)
  then have "unat (WritableBytes b') = 1"
    using unat_WritableBytes [OF post(1)] wp' by simp
  then have "WritableBytes b' = 1"
    by (simp add: word_unat_eq_iff)
  then show ?thesis
    using ew le w1 b1(2) post(2) by blast
qed

theorem C3_witness:
  "well_formed capacity10 \<and> length ''hello world'' \<le> max_size
   \<and> WritableBytes capacity10 + PrependableBytes capacity10 < of_nat (length ''hello world'')
   \<and> Append_str ''hello world'' capacity10 =
       Inr \<lparr>buffer = ''hello world'' @ [CHR 0x00], readPos = 0, writePos = 11\<rparr>
   \<and> (\<exists>b1. EnsureWriteable (of_nat (length ''hello world'')) capacity10 = Inr b1
            \<and> of_nat (length ''hello world'') \<le> WritableBytes b1
            \<and> unat (WritableBytes b1) = length ''hello world'' + 1
            \<and> readable b1 = readable capacity10
            \<and> WritableBytes \<lparr>buffer = ''hello world'' @ [CHR 0x00], readPos = 0, writePos = 11\<rparr> = 1
            \<and> readable \<lparr>buffer = ''hello world'' @ [CHR 0x00], readPos = 0, writePos = 11\<rparr>
                = readable capacity10 @ ''hello world'')"
proof -
  have h1: "well_formed capacity10"
    by (simp add: capacity10_def well_formed_def max_size_def)
  have h2: "length ''hello world'' \<le> max_size"
    by (simp add: max_size_def)
  have h3: "WritableBytes capacity10 + PrependableBytes capacity10 < of_nat (length ''hello world'')"
    by (simp add: capacity10_def eval_defs)
  have h4: "Append_str ''hello world'' capacity10 =
       Inr \<lparr>buffer = ''hello world'' @ [CHR 0x00], readPos = 0, writePos = 11\<rparr>"
    by (simp add: capacity10_def max_size_def MakeSpace_def resize_def eval_defs)
  show ?thesis
    using C3_growth_then_one_byte_left [OF h1 h2 h3 h4] h1 h2 h3 h4 by blast
qed

subsection \<open>C4: the scenario on a buffer of capacity 10\<close>

text \<open>
  C4, as the spec states it: after \<^verbatim>\<open>append("hello")\<close>, \<^verbatim>\<open>consume(2)\<close>, \<^verbatim>\<open>append("ab")\<close> on a
  buffer of capacity 10 the read cursor is 0. It is not: the run ends with the read
  cursor at 2.
\<close>

theorem C4_counterexample:
  "scenario = Inr scenario_end \<and> readPos scenario_end \<noteq> 0"
  by (simp add: scenario_def scenario_end_def eval_defs)

text \<open>
  C4, amended: on a buffer of capacity 10, after \<^verbatim>\<open>Append("hello")\<close> and \<^verbatim>\<open>Retrieve(2)\<close>
  five bytes are writable, so \<^verbatim>\<open>EnsureWriteable(2)\<close> inside \<^verbatim>\<open>Append("ab")\<close> leaves the
  buffer as it is and nothing is moved; afterwards the read cursor is 2, the write
  cursor is 7 and the readable content is \<open>lloab\<close>.
\<close>

theorem C4_scenario_without_compaction:
  "Buffer_new 10 = Inr \<lparr>buffer = replicate 10 (CHR 0x00), readPos = 0, writePos = 0\<rparr>
   \<and> run [OpAppend ''hello'', OpRetrieve 2]
         \<lparr>buffer = replicate 10 (CHR 0x00), readPos = 0, writePos = 0\<rparr> = Inr hello_consumed
   \<and> WritableBytes hello_consumed = 5
   \<and> EnsureWriteable 2 hello_consumed = Inr hello_consumed
   \<and> Append_str ''ab'' hello_consumed = Inr scenario_end
   \<and> scenario = Inr scenario_end
   \<and> readPos scenario_end = 2 \<and> writePos scenario_end = 7
   \<and> readable scenario_end = ''lloab''"
  by (simp add: scenario_def scenario_end_def hello_consumed_def readable_def eval_defs)

subsection \<open>C5: \<^verbatim>\<open>HasWritten\<close>\<close>

lemma HasWritten_ok:
  assumes wf: "well_formed b" and le: "len \<le> WritableBytes b"
  shows "well_formed (HasWritten len b)"
    and "unat (writePos (HasWritten len b)) = unat (writePos b) + unat len"
    and "readPos (HasWritten len b) = readPos b"
    and "buffer (HasWritten len b) = buffer b"
proof -
  note nat = wf_nat [OF wf]
  have "unat len \<le> length (buffer b) - unat (writePos b)"
    using le unat_WritableBytes [OF wf] by (simp add: word_le_nat_alt)
  then have room: "unat (writePos b) + unat len \<le> length (buffer b)"
    using nat by simp
  then show wp: "unat (writePos (HasWritten len b)) = unat (writePos b) + unat len"
    using nat unat_add_small [of "writePos b" len] by (simp add: HasWritten_def)
  show "well_formed (HasWritten len b)"
    using wf nat room wp by (simp add: well_formed_def word_le_nat_alt) (simp add: HasWritten_def)
  show "readPos (HasWritten len b) = readPos b" "buffer (HasWritten len b) = buffer b"
    by (simp_all add: HasWritten_def)
qed

text \<open>
  C5: \<^verbatim>\<open>HasWritten(len)\<close> advances the write cursor by \<open>len\<close> when
  \<open>len \<le> writableBytes()\<close> (\<open>HasWritten_ok\<close>), and with \<open>len > writableBytes()\<close> it is
  to abort. The source has no check: on a new buffer of capacity 10, \<^verbatim>\<open>HasWritten(11)\<close>
  returns with the write cursor at 11, past the end of the storage; the invariant is lost
  and \<^verbatim>\<open>WritableBytes()\<close> wraps around to \<open>2^64 - 1\<close>.
\<close>

theorem C5_HasWritten_unchecked:
  "well_formed capacity10
   \<and> WritableBytes capacity10 = 10
   \<and> HasWritten 11 capacity10 =
       \<lparr>buffer = replicate 10 (CHR 0x00), readPos = 0, writePos = 11\<rparr>
   \<and> \<not> well_formed (HasWritten 11 capacity10)
   \<and> WritableBytes (HasWritten 11 capacity10) = 0xFFFFFFFFFFFFFFFF"
  by (simp add: capacity10_def well_formed_def max_size_def eval_defs)

subsection \<open>C6: a failing system call\<close>

text \<open>
  C6: when \<^verbatim>\<open>readv\<close> fails, \<^verbatim>\<open>ReadFd\<close> returns \<open>-1\<close>, stores the error number in
  \<^verbatim>\<open>*saveErrno\<close> and leaves the buffer (storage and both cursors) as it was; when
  \<^verbatim>\<open>write\<close> fails, so does \<^verbatim>\<open>WriteFd\<close>.
\<close>

theorem C6_failed_transfer_keeps_buffer:
  assumes "readv src (unat (WritableBytes b)) 65535 = Inl e"
    and "write_sys snk (unat (ReadableBytes b)) = Inl e'"
  shows "ReadFd src saveErrno b = Inr (- 1, e, b) \<and> WriteFd snk saveErrno b = (- 1, e', b)"
  using assms by (simp add: ReadFd_def WriteFd_def)

theorem C6_witness:
  "readv (ReadFails 11) (unat (WritableBytes hello_consumed)) 65535 = Inl 11
   \<and> write_sys (WriteFails 32) (unat (ReadableBytes hello_consumed)) = Inl 32
   \<and> ReadFd (ReadFails 11) 0 hello_consumed = Inr (- 1, 11, hello_consumed)
   \<and> WriteFd (WriteFails 32) 0 hello_consumed = (- 1, 32, hello_consumed)"
proof -
  have h1: "readv (ReadFails 11) (unat (WritableBytes hello_consumed)) 65535 = Inl 11"
    by (simp add: readv_def)
  have h2: "write_sys (WriteFails 32) (unat (ReadableBytes hello_consumed)) = Inl 32"
    by (simp add: write_sys_def)
  show ?thesis
    using C6_failed_transfer_keeps_buffer [OF h1 h2, of 0] h1 h2 by simp
qed

subsection \<open>C7: a read that overflows the writable region\<close>

lemma readv_lengths:
  assumes "readv src l0 l1 = Inr (seg0, seg1)"
  shows "length seg0 \<le> l0" and "length seg1 \<le> l1" and "l0 + l1 \<le> SSIZE_MAX"
    and "\<exists>bs. src = ReadReady bs \<and> seg0 = take l0 bs \<and> seg1 = take l1 (drop l0 bs)"
  using assms by (auto simp: readv_def split: fd_source.splits if_splits)

lemma unat_word_of_int_total:
  "n \<le> SSIZE_MAX \<Longrightarrow> unat (word_of_int (int n) :: size_t) = n"
  by (simp add: unat_of_nat SSIZE_MAX_def)

lemma readv_split:
  assumes rv: "readv src l0 l1 = Inr (seg0, ovf)"
  shows "ovf \<noteq> [] \<Longrightarrow> length seg0 = l0" and "length seg0 < l0 \<Longrightarrow> ovf = []"
proof -
  obtain bs where seg0: "seg0 = take l0 bs" and ovf: "ovf = take l1 (drop l0 bs)"
    using readv_lengths(4) [OF rv] by blast
  show "length seg0 < l0 \<Longrightarrow> ovf = []"
    by (simp add: seg0 ovf)
  then show "ovf \<noteq> [] \<Longrightarrow> length seg0 = l0"
    using readv_lengths(1) [OF rv] by (cases "length seg0 < l0") auto
qed

text \<open>The buffer between the read and the append of the overflow.\<close>

lemma filled_buffer:
  assumes wf: "well_formed b" and full: "length seg0 = unat (WritableBytes b)"
  defines "bmid \<equiv> b\<lparr>buffer := write_at (unat (writePos b)) seg0 (buffer b),
                      writePos := of_nat (length (write_at (unat (writePos b)) seg0 (buffer b)))\<rparr>"
  shows "well_formed bmid" and "readable bmid = readable b @ seg0"
    and "length (buffer bmid) = length (buffer b)"
    and "unat (writePos bmid) = length (buffer bmid)"
    and "unat (ReadableBytes bmid) = unat (ReadableBytes b) + length seg0"
proof -
  note nat = wf_nat [OF wf]
  have W: "length seg0 = length (buffer b) - unat (writePos b)"
    using full unat_WritableBytes [OF wf] by simp
  have buf: "write_at (unat (writePos b)) seg0 (buffer b) = take (unat (writePos b)) (buffer b) @ seg0"
    using nat W by (simp add: write_at_def)
  show len: "length (buffer bmid) = length (buffer b)"
    using nat W by (simp add: bmid_def buf)
  have wp: "unat (writePos bmid) = length (buffer b)"
    using nat W by (simp add: bmid_def buf unat_of_nat)
  then show "unat (writePos bmid) = length (buffer bmid)"
    using len by simp
  have rp: "readPos bmid = readPos b"
    by (simp add: bmid_def)
  show wfm: "well_formed bmid"
    using wf nat wp len by (simp add: well_formed_def word_le_nat_alt rp)
  show "readable bmid = readable b @ seg0"
    using nat W by (simp add: readable_def [of bmid] wp rp) (simp add: bmid_def buf readable_def drop_take)
  show "unat (ReadableBytes bmid) = unat (ReadableBytes b) + length seg0"
    using unat_ReadableBytes [OF wfm] unat_ReadableBytes [OF wf] nat W wp rp by simp
qed

lemma ReadFd_overflow:
  assumes wf: "well_formed b"
    and rv: "readv src (unat (WritableBytes b)) 65535 = Inr (seg0, ovf)"
    and more: "unat (WritableBytes b) < length seg0 + length ovf"
    and ok: "ReadFd src saveErrno b = Inr (len, errno, b')"
  shows "length seg0 = unat (WritableBytes b)"
    and "Append (Some ovf) (of_nat (length ovf))
           (b\<lparr>buffer := write_at (unat (writePos b)) seg0 (buffer b),
              writePos := of_nat (length (write_at (unat (writePos b)) seg0 (buffer b)))\<rparr>) = Inr b'"
    and "len = int (length seg0 + length ovf)" and "errno = saveErrno"
proof -
  note rl = readv_lengths [OF rv]
  have total: "length seg0 + length ovf \<le> SSIZE_MAX"
    using rl by simp
  have ovf: "ovf \<noteq> []"
    using more rl(1) by auto
  then show full: "length seg0 = unat (WritableBytes b)"
    by (rule readv_split(1) [OF rv])
  have gt: "\<not> (word_of_int (int (length seg0 + length ovf)) :: size_t) \<le> WritableBytes b"
    using more unat_word_of_int_total [OF total] by (simp add: word_le_nat_alt del: of_nat_add)
  have "unat (word_of_int (int (length seg0 + length ovf)) - WritableBytes b :: size_t) = length ovf"
    using gt unat_word_of_int_total [OF total] full by (simp add: unat_sub del: of_nat_add)
  then have arg: "word_of_int (int (length seg0 + length ovf)) - WritableBytes b = (of_nat (length ovf) :: size_t)"
    using rl(2) by (simp add: word_unat_eq_iff unat_of_nat del: of_nat_add)
  have inb: "\<not> length (buffer b) < unat (writePos b)"
    using wf_nat [OF wf] by simp
  show "Append (Some ovf) (of_nat (length ovf))
           (b\<lparr>buffer := write_at (unat (writePos b)) seg0 (buffer b),
              writePos := of_nat (length (write_at (unat (writePos b)) seg0 (buffer b)))\<rparr>) = Inr b'"
    and "len = int (length seg0 + length ovf)" and "errno = saveErrno"
    using ok rv gt inb arg
    by (auto simp: ReadFd_def Let_def size_buf_def simp del: of_nat_add split: sum.splits)
qed

text \<open>
  C7: let \<^verbatim>\<open>readv\<close> succeed on a well-formed buffer and store \<open>writableBytes() + N\<close> bytes
  with \<open>N > 0\<close>: the writable region is filled (\<open>seg0\<close>) and \<open>N\<close> bytes go to the local
  array (\<open>ovf\<close>). If \<^verbatim>\<open>ReadFd\<close> returns, its result is \<open>writableBytes() + N\<close>, the
  readable size has grown by as much, the buffer is the one \<^verbatim>\<open>Append\<close> makes of the
  overflow from a buffer whose write cursor is at the end of the storage, the readable
  content is the old one followed by all bytes read, and its last \<open>N\<close> bytes are the
  overflow.
\<close>

theorem C7_scatter_read_overflow:
  assumes "well_formed b"
    and "readv src (unat (WritableBytes b)) 65535 = Inr (seg0, ovf)"
    and "length seg0 + length ovf = unat (WritableBytes b) + N" and "0 < N"
    and "ReadFd src saveErrno b = Inr (len, errno, b')"
  shows "len = uint (WritableBytes b) + int N
     \<and> unat (ReadableBytes b') = unat (ReadableBytes b) + unat (WritableBytes b) + N
     \<and> length ovf = N
     \<and> (\<exists>bmid. writePos bmid = size_buf bmid
            \<and> unat (writePos bmid) = length (buffer bmid)
            \<and> length (buffer bmid) = length (buffer b)
            \<and> readable bmid = readable b @ seg0
            \<and> Append (Some ovf) (of_nat N) bmid = Inr b')
     \<and> readable b' = readable b @ seg0 @ ovf
     \<and> drop (length (readable b') - N) (readable b') = ovf"
proof -
  let ?bmid = "b\<lparr>buffer := write_at (unat (writePos b)) seg0 (buffer b),
              writePos := of_nat (length (write_at (unat (writePos b)) seg0 (buffer b)))\<rparr>"
  have more: "unat (WritableBytes b) < length seg0 + length ovf"
    using assms(3,4) by simp
  note ov = ReadFd_overflow [OF assms(1,2) more assms(5)]
  note mid = filled_buffer [OF assms(1) ov(1)]
  have N: "length ovf = N"
    using assms(3) ov(1) by simp
  have uN: "unat (of_nat (length ovf) :: size_t) = length ovf"
    using readv_lengths(2) [OF assms(2)] by (simp add: unat_of_nat)
  note app = Append_ok [OF mid(1) ov(2)]
  have len: "len = uint (WritableBytes b) + int N"
    using ov(3) assms(3) by simp
  have grown: "unat (ReadableBytes b') = unat (ReadableBytes b) + unat (WritableBytes b) + N"
    using app(5) mid(5) uN ov(1) N by simp
  have content: "readable b' = readable b @ seg0 @ ovf"
    using app(2) mid(2) uN by simp
  have last: "drop (length (readable b') - N) (readable b') = ovf"
    using N by (simp add: content)
  have "writePos ?bmid = size_buf ?bmid"
    by (simp add: size_buf_def)
  then have "\<exists>bmid. writePos bmid = size_buf bmid
            \<and> unat (writePos bmid) = length (buffer bmid)
            \<and> length (buffer bmid) = length (buffer b)
            \<and> readable bmid = readable b @ seg0
            \<and> Append (Some ovf) (of_nat N) bmid = Inr b'"
    using mid(2,3,4) ov(2) N by (intro exI [of _ ?bmid]) simp
  then show ?thesis
    using len grown N content last by simp
qed

theorem C7_witness:
  "well_formed capacity10
   \<and> readv (ReadReady ''0123456789abcdef'') (unat (WritableBytes capacity10)) 65535 =
        Inr (''0123456789'', ''abcdef'')
   \<and> length ''0123456789'' + length ''abcdef'' = unat (WritableBytes capacity10) + 6
   \<and> (0 :: nat) < 6
   \<and> ReadFd (ReadReady ''0123456789abcdef'') 0 capacity10 =
        Inr (16, 0, \<lparr>buffer = ''0123456789abcdef'' @ [CHR 0x00], readPos = 0, writePos = 16\<rparr>)
   \<and> (16 :: int) = uint (WritableBytes capacity10) + int 6
   \<and> readable \<lparr>buffer = ''0123456789abcdef'' @ [CHR 0x00], readPos = 0, writePos = 16\<rparr>
        = readable capacity10 @ ''0123456789'' @ ''abcdef''
   \<and> drop (length (readable
              \<lparr>buffer = ''0123456789abcdef'' @ [CHR 0x00], readPos = 0, writePos = 16\<rparr>) - 6)
         (readable \<lparr>buffer = ''0123456789abcdef'' @ [CHR 0x00], readPos = 0, writePos = 16\<rparr>)
        = ''abcdef''"
proof -
  have h1: "well_formed capacity10"
    by (simp add: capacity10_def well_formed_def max_size_def)
  have h2: "readv (ReadReady ''0123456789abcdef'') (unat (WritableBytes capacity10)) 65535 =
        Inr (''0123456789'', ''abcdef'')"
    by (simp add: capacity10_def readv_def SSIZE_MAX_def eval_defs)
  have h3: "length ''0123456789'' + length ''abcdef'' = unat (WritableBytes capacity10) + 6"
    by (simp add: capacity10_def eval_defs)
  have h4: "(0 :: nat) < 6"
    by simp
  have h5: "ReadFd (ReadReady ''0123456789abcdef'') 0 capacity10 =
     Inr (16, 0, \<lparr>buffer = ''0123456789abcdef'' @ [CHR 0x00], readPos = 0, writePos = 16\<rparr>)"
    by (simp add: capacity10_def ReadFd_def readv_def SSIZE_MAX_def max_size_def MakeSpace_def
        resize_def eval_defs)
  show ?thesis
    using C7_scatter_read_overflow [OF h1 h2 h3 h4 h5] h1 h2 h3 h5 by simp
qed

subsection \<open>C8: append, then take everything\<close>

lemma RetrieveAll_empty:
  shows "ReadableBytes (RetrieveAll b) = 0" and "readPos (RetrieveAll b) = 0"
  and "writePos (RetrieveAll b) = 0"
  and "WritableBytes (RetrieveAll b) = size_buf (RetrieveAll b)"
  and "length (buffer (RetrieveAll b)) = length (buffer b)"
  and "buffer (RetrieveAll b) = replicate (length (buffer b)) (CHR 0x00)"
  by (simp_all add: RetrieveAll_def ReadableBytes_def WritableBytes_def size_buf_def)

lemma RetrieveAll_wf:
  "length (buffer b) \<le> max_size \<Longrightarrow> well_formed (RetrieveAll b)"
  by (simp add: RetrieveAll_def well_formed_def)

lemma RetrieveAllToStr_ok:
  assumes "well_formed b"
  shows "RetrieveAllToStr b = Inr (readable b, RetrieveAll b)"
  using wf_nat [OF assms] unat_ReadableBytes [OF assms]
  by (simp add: RetrieveAllToStr_def Peek_def readable_def)

text \<open>
  C8: on a well-formed buffer, \<^verbatim>\<open>Append(X)\<close> returns whenever the storage can still be
  made large enough; and whenever it returns, \<^verbatim>\<open>RetrieveAllToStr()\<close> right after it
  returns the readable content of before followed by \<open>X\<close>, which is \<open>X\<close> itself when
  nothing was readable; afterwards no byte is readable and the whole storage is writable.
\<close>

theorem C8_append_then_retrieve_all:
  assumes "well_formed b" and "length X \<le> max_size"
  shows "(length (buffer b) + length X + 1 \<le> max_size \<longrightarrow> (\<exists>b1. Append_str X b = Inr b1))
     \<and> (\<forall>b1. Append_str X b = Inr b1 \<longrightarrow>
            RetrieveAllToStr b1 = Inr (readable b @ X, RetrieveAll b1)
          \<and> (ReadableBytes b = 0 \<longrightarrow> RetrieveAllToStr b1 = Inr (X, RetrieveAll b1))
          \<and> ReadableBytes (RetrieveAll b1) = 0
          \<and> WritableBytes (RetrieveAll b1) = size_buf (RetrieveAll b1)
          \<and> unat (WritableBytes (RetrieveAll b1)) = length (buffer (RetrieveAll b1)))"
proof (intro conjI impI allI)
  have l: "unat (of_nat (length X) :: size_t) = length X"
    by (rule unat_of_nat_length [OF assms(2)])
  assume "length (buffer b) + length X + 1 \<le> max_size"
  then show "\<exists>b1. Append_str X b = Inr b1"
    using Append_succeeds [OF assms(1), of "of_nat (length X)" X] l
    by (simp add: Append_str_def)
next
  fix b1 assume b1: "Append_str X b = Inr b1"
  note post = Append_str_ok [OF assms b1]
  show all: "RetrieveAllToStr b1 = Inr (readable b @ X, RetrieveAll b1)"
    using RetrieveAllToStr_ok [OF post(1)] post(2) by simp
  show "ReadableBytes (RetrieveAll b1) = 0"
    and "WritableBytes (RetrieveAll b1) = size_buf (RetrieveAll b1)"
    by (simp_all add: RetrieveAll_empty)
  have wf2: "well_formed (RetrieveAll b1)"
    using post(1) by (intro RetrieveAll_wf) (simp add: well_formed_def)
  show "unat (WritableBytes (RetrieveAll b1)) = length (buffer (RetrieveAll b1))"
    using unat_WritableBytes [OF wf2] by (simp add: RetrieveAll_empty(3))
  assume "ReadableBytes b = 0"
  then have "readable b = []"
    using unat_ReadableBytes [OF assms(1)] by (simp add: readable_def)
  then show "RetrieveAllToStr b1 = Inr (X, RetrieveAll b1)"
    using all by simp
qed

theorem C8_witness:
  "well_formed capacity10 \<and> length ''hello'' \<le> max_size
   \<and> length (buffer capacity10) + length ''hello'' + 1 \<le> max_size
   \<and> ReadableBytes capacity10 = 0
   \<and> Append_str ''hello'' capacity10 = Inr hello_written
   \<and> RetrieveAllToStr hello_written = Inr (''hello'', RetrieveAll hello_written)
   \<and> ReadableBytes (RetrieveAll hello_written) = 0
   \<and> WritableBytes (RetrieveAll hello_written) = size_buf (RetrieveAll hello_written)
   \<and> unat (WritableBytes (RetrieveAll hello_written)) = length (buffer (RetrieveAll hello_written))"
proof -
  have h1: "well_formed capacity10"
    by (simp add: capacity10_def well_formed_def max_size_def)
  have h2: "length ''hello'' \<le> max_size"
    by (simp add: max_size_def)
  have h3: "length (buffer capacity10) + length ''hello'' + 1 \<le> max_size"
    by (simp add: capacity10_def max_size_def)
  have h4: "ReadableBytes capacity10 = 0"
    by (simp add: capacity10_def ReadableBytes_def)
  have h5: "Append_str ''hello'' capacity10 = Inr hello_written"
    by (simp add: capacity10_def hello_written_def eval_defs)
  show ?thesis
    using C8_append_then_retrieve_all [OF h1 h2] h1 h2 h3 h4 h5 by blast
qed

subsection \<open>C9: the size of the storage\<close>

lemma EnsureWriteable_never_shrinks:
  assumes wf: "well_formed b" and rep: "unat (writePos b) + unat len + 1 < 2 ^ 64"
    and ok: "EnsureWriteable len b = Inr b1"
  shows "length (buffer b) \<le> length (buffer b1)"
proof (cases "WritableBytes b < len \<and> WritableBytes b + PrependableBytes b < len")
  case True
  let ?n = "unat (writePos b + len + 1)"
  have n_eq: "?n = unat (writePos b) + unat len + 1"
    by (rule unat_grow_size [OF rep])
  from True ok have b1: "b1 = b\<lparr>buffer := resize ?n (buffer b)\<rparr>"
    by (auto simp: EnsureWriteable_def MakeSpace_def Let_def split: if_splits)
  have "length (buffer b) - unat (writePos b) + unat (readPos b) < unat len"
    using True unat_Writable_Prependable [OF wf] by (simp add: word_less_nat_alt)
  then have "length (buffer b) < ?n"
    using n_eq by arith
  then show ?thesis
    by (simp add: b1 resize_def)
next
  case False
  then consider (stay) "\<not> WritableBytes b < len"
    | (compact) "WritableBytes b < len" "\<not> WritableBytes b + PrependableBytes b < len"
    by blast
  then show ?thesis
  proof cases
    case stay
    then have "b1 = b"
      using ok by (simp add: EnsureWriteable_def split: if_splits)
    then show ?thesis by simp
  next
    case compact
    then have "b1 = \<lparr>buffer = readable b @ drop (unat (writePos b) - unat (readPos b)) (buffer b),
                readPos = 0, writePos = ReadableBytes b\<rparr>"
      using ok by (simp add: EnsureWriteable_def MakeSpace_compact [OF wf] split: if_splits)
    then show ?thesis
      using wf_nat [OF wf] length_readable [OF wf] by simp
  qed
qed

lemma ReadFd_never_shrinks:
  assumes wf: "well_formed b" and ok: "ReadFd src saveErrno b = Inr (len, errno, b')"
  shows "length (buffer b) \<le> length (buffer b')"
proof (cases "readv src (unat (WritableBytes b)) 65535")
  case (Inl e)
  then have "b' = b"
    using ok by (simp add: ReadFd_def)
  then show ?thesis by simp
next
  case (Inr segs)
  obtain seg0 ovf where segs: "segs = (seg0, ovf)"
    by (cases segs)
  note rv = Inr [unfolded segs]
  note rl = readv_lengths [OF rv]
  note nat = wf_nat [OF wf]
  show ?thesis
  proof (cases "unat (WritableBytes b) < length seg0 + length ovf")
    case True
    note ov = ReadFd_overflow [OF wf rv True ok]
    note mid = filled_buffer [OF wf ov(1)]
    show ?thesis
      using Append_ok(4) [OF mid(1) ov(2)] mid(3) by simp
  next
    case False
    have "unat (writePos b) + length seg0 \<le> length (buffer b)"
      using rl(1) unat_WritableBytes [OF wf] nat by simp
    then have "length (write_at (unat (writePos b)) seg0 (buffer b)) = length (buffer b)"
      by (rule length_write_at)
    moreover have "(word_of_int (int (length seg0 + length ovf)) :: size_t) \<le> WritableBytes b"
      using False rl unat_word_of_int_total [of "length seg0 + length ovf"]
      by (simp add: word_le_nat_alt del: of_nat_add)
    ultimately show ?thesis
      using ok rv nat by (auto simp: ReadFd_def Let_def simp del: of_nat_add)
  qed
qed

lemma exec_never_shrinks:
  assumes wf: "well_formed b" and ok: "exec c b = Inr b'"
    and rep: "\<And>len. c = CEnsureWriteable len \<Longrightarrow> unat (writePos b) + unat len + 1 < 2 ^ 64"
  shows "length (buffer b) \<le> length (buffer b')"
proof (cases c)
  case (CRetrieve len)
  then show ?thesis
    using ok by (auto simp: Retrieve_def split: if_splits)
next
  case (CRetrieveUntil e)
  then show ?thesis
    using ok by (auto simp: RetrieveUntil_def Retrieve_def split: if_splits)
next
  case CRetrieveAll
  then show ?thesis
    using ok by (auto simp: RetrieveAll_def)
next
  case CRetrieveAllToStr
  then show ?thesis
    using ok by (auto simp: RetrieveAllToStr_def RetrieveAll_def split: if_splits)
next
  case (CHasWritten len)
  then show ?thesis
    using ok by (auto simp: HasWritten_def)
next
  case (CAppend str len)
  then obtain bs where "Append (Some bs) len b = Inr b'"
    using ok by (cases str) (auto simp: Append_def)
  then show ?thesis
    by (rule Append_ok(4) [OF wf])
next
  case (CAppend_str str)
  then have "Append (Some str) (of_nat (length str)) b = Inr b'"
    using ok by (simp add: Append_str_def)
  then show ?thesis
    by (rule Append_ok(4) [OF wf])
next
  case (CAppend_void data len)
  then obtain bs where "Append (Some bs) len b = Inr b'"
    using ok by (cases data) (auto simp: Append_void_def)
  then show ?thesis
    by (rule Append_ok(4) [OF wf])
next
  case (CAppend_buf buff)
  then have "Append (Some (Peek buff)) (ReadableBytes buff) b = Inr b'"
    using ok by (simp add: Append_buf_def)
  then show ?thesis
    by (rule Append_ok(4) [OF wf])
next
  case (CEnsureWriteable len)
  then show ?thesis
    using ok EnsureWriteable_never_shrinks [OF wf rep [OF CEnsureWriteable]] by simp
next
  case (CReadFd src saveErrno)
  then obtain len errno where "ReadFd src saveErrno b = Inr (len, errno, b')"
    using ok by (auto split: sum.splits)
  then show ?thesis
    by (rule ReadFd_never_shrinks [OF wf])
next
  case (CWriteFd snk saveErrno)
  then show ?thesis
    using ok by (auto simp: WriteFd_def Let_def split: sum.splits)
qed

text \<open>
  C9: no public operation makes the storage smaller. \<^verbatim>\<open>EnsureWriteable(len)\<close> does, when
  \<open>writePos_ + len + 1\<close> wraps around: on a buffer of capacity 10 holding \<open>hello\<close>, the
  call with \<open>len = 2^64 - 4\<close> returns (the assertion, computed with the same wrap-around,
  holds) with a storage of 2 bytes and the write cursor, still 5, past its end. Every other
  call on a well-formed buffer keeps or enlarges the storage (\<open>exec_never_shrinks\<close>), and
  \<^verbatim>\<open>RetrieveAll\<close> zeroes it at its size (\<open>RetrieveAll_empty\<close>).
\<close>

theorem C9_EnsureWriteable_shrinks:
  "well_formed hello_written
   \<and> length (buffer hello_written) = 10
   \<and> EnsureWriteable 0xFFFFFFFFFFFFFFFC hello_written =
        Inr \<lparr>buffer = ''he'', readPos = 0, writePos = 5\<rparr>
   \<and> \<not> well_formed \<lparr>buffer = ''he'', readPos = 0, writePos = 5\<rparr>"
  by (simp add: hello_written_def well_formed_def max_size_def MakeSpace_def resize_def eval_defs)

subsection \<open>C10: the most one \<^verbatim>\<open>ReadFd\<close> call transfers\<close>

text \<open>
  C10: a \<^verbatim>\<open>ReadFd\<close> call that returns gives a result of at most the writable size
  before the call plus 65535, the size of the local array.
\<close>

theorem C10_ReadFd_bound:
  assumes "ReadFd src saveErrno b = Inr (len, errno, b')"
  shows "len \<le> uint (WritableBytes b) + 65535"
proof (cases "readv src (unat (WritableBytes b)) 65535")
  case (Inl e)
  then have "len = - 1"
    using assms by (simp add: ReadFd_def)
  then show ?thesis by simp
next
  case (Inr segs)
  obtain seg0 buff where segs: "segs = (seg0, buff)"
    by (cases segs)
  have len: "len = int (length seg0) + int (length buff)"
    using assms Inr segs by (auto simp: ReadFd_def Let_def split: if_splits sum.splits)
  have "length seg0 \<le> nat (uint (WritableBytes b))" and "int (length buff) \<le> 65535"
    using readv_lengths(1,2) [OF Inr [unfolded segs]] by simp_all
  then show ?thesis
    using len uint_nonnegative [of "WritableBytes b"] by linarith
qed

theorem C10_witness:
  "ReadFd (ReadReady ''0123456789abcdef'') 0 capacity10 =
     Inr (16, 0, \<lparr>buffer = ''0123456789abcdef'' @ [CHR 0x00], readPos = 0, writePos = 16\<rparr>)
   \<and> (16 :: int) \<le> uint (WritableBytes capacity10) + 65535"
proof -
  have h: "ReadFd (ReadReady ''0123456789abcdef'') 0 capacity10 =
     Inr (16, 0, \<lparr>buffer = ''0123456789abcdef'' @ [CHR 0x00], readPos = 0, writePos = 16\<rparr>)"
    by (simp add: capacity10_def ReadFd_def readv_def SSIZE_MAX_def max_size_def MakeSpace_def
        resize_def eval_defs)
  show ?thesis
    using C10_ReadFd_bound [OF h] h by simp
qed

end
